theory Spec2Isabelle
  imports Main "HOL-Library.Char_ord" "HOL-Library.List_Lexorder"
begin

section \<open>The tfvars-to-env synchroniser (scripts/sync-tfvars-to-env.py)\<close>

text \<open>
  Strings are lists of characters, as Python's \<open>str\<close> restricted to ASCII text.  The
  case conversions \<open>lower\<close> and \<open>upper\<close> act on the ASCII letters only, and the
  whitespace removed by \<open>strip\<close> is the ASCII whitespace of Python's \<open>str.strip()\<close>.
\<close>

subsection \<open>String primitives of the Python runtime\<close>

definition is_space :: "char \<Rightarrow> bool" where
  "is_space c = (c \<in> set [CHR 0x20, CHR 0x09, CHR 0x0A, CHR 0x0B, CHR 0x0C, CHR 0x0D,
                            CHR 0x1C, CHR 0x1D, CHR 0x1E, CHR 0x1F])"

definition strip :: "string \<Rightarrow> string" where
  "strip s = rev (dropWhile is_space (rev (dropWhile is_space s)))"

definition lower_char :: "char \<Rightarrow> char" where
  "lower_char c =
     (case map_of (zip ''ABCDEFGHIJKLMNOPQRSTUVWXYZ'' ''abcdefghijklmnopqrstuvwxyz'') c of
        Some d \<Rightarrow> d | None \<Rightarrow> c)"

definition upper_char :: "char \<Rightarrow> char" where
  "upper_char c =
     (case map_of (zip ''abcdefghijklmnopqrstuvwxyz'' ''ABCDEFGHIJKLMNOPQRSTUVWXYZ'') c of
        Some d \<Rightarrow> d | None \<Rightarrow> c)"

definition lower :: "string \<Rightarrow> string" where
  "lower s = map lower_char s"

definition upper :: "string \<Rightarrow> string" where
  "upper s = map upper_char s"

text \<open>\<open>s.startswith(c)\<close> and \<open>s.endswith(c)\<close> for a one-character \<open>c\<close>.\<close>

definition startswith :: "string \<Rightarrow> char \<Rightarrow> bool" where
  "startswith s c = (case s of [] \<Rightarrow> False | x # _ \<Rightarrow> x = c)"

definition endswith :: "string \<Rightarrow> char \<Rightarrow> bool" where
  "endswith s c = (case rev s of [] \<Rightarrow> False | x # _ \<Rightarrow> x = c)"

text \<open>\<open>s[1:-1]\<close>: the empty string when \<open>s\<close> has fewer than two characters.\<close>

definition slice_inner :: "string \<Rightarrow> string" where
  "slice_inner s = butlast (tl s)"

text \<open>\<open>s.count(c)\<close> for a one-character \<open>c\<close>.\<close>

definition count_char :: "string \<Rightarrow> char \<Rightarrow> nat" where
  "count_char s c = length (filter (\<lambda>x. x = c) s)"

text \<open>\<open>s.split(c)\<close> for a one-character separator: always at least one piece.\<close>

fun split_on :: "char \<Rightarrow> string \<Rightarrow> string list" where
  "split_on c [] = [[]]"
| "split_on c (x # xs) =
     (if x = c then [] # split_on c xs
      else (case split_on c xs of
              [] \<Rightarrow> [[x]]
            | p # ps \<Rightarrow> (x # p) # ps))"

text \<open>\<open>s.partition(c)\<close>: the text before the first \<open>c\<close> and the text after it.\<close>

definition partition_on :: "char \<Rightarrow> string \<Rightarrow> string \<times> string" where
  "partition_on c s = (takeWhile (\<lambda>x. x \<noteq> c) s, drop 1 (dropWhile (\<lambda>x. x \<noteq> c) s))"

text \<open>\<open>sep.join(xs)\<close>.\<close>

fun join :: "string \<Rightarrow> string list \<Rightarrow> string" where
  "join sep [] = []"
| "join sep [x] = x"
| "join sep (x # y # ys) = x @ sep @ join sep (y # ys)"

subsection \<open>Python's \<open>int(str)\<close> and \<open>float(str)\<close>\<close>

definition is_digit :: "char \<Rightarrow> bool" where
  "is_digit c = (c \<in> set ''0123456789'')"

definition digit_val :: "char \<Rightarrow> nat" where
  "digit_val c = (case map_of (zip ''0123456789'' [0, 1, 2, 3, 4, 5, 6, 7, 8, 9]) c of
                    Some d \<Rightarrow> d | None \<Rightarrow> 0)"

text \<open>The rest of a digit part: digits, each underscore followed by a digit.\<close>

fun digits_tail :: "string \<Rightarrow> bool" where
  "digits_tail [] = True"
| "digits_tail (c # cs) =
     (if c = CHR ''_'' then (case cs of [] \<Rightarrow> False | d # ds \<Rightarrow> is_digit d \<and> digits_tail ds)
      else is_digit c \<and> digits_tail cs)"

text \<open>\<open>digitpart ::= digit (["_"] digit)*\<close>\<close>

definition digitpart :: "string \<Rightarrow> bool" where
  "digitpart s = (case s of [] \<Rightarrow> False | c # cs \<Rightarrow> is_digit c \<and> digits_tail cs)"

definition digits_value :: "string \<Rightarrow> nat" where
  "digits_value s = foldl (\<lambda>a c. 10 * a + digit_val c) 0 (filter (\<lambda>c. c \<noteq> CHR ''_'') s)"

text \<open>An optional sign, split from the text: (negative, rest).\<close>

definition split_sign :: "string \<Rightarrow> bool \<times> string" where
  "split_sign s = (case s of
       [] \<Rightarrow> (False, [])
     | c # cs \<Rightarrow> (if c = CHR ''-'' then (True, cs)
                 else if c = CHR ''+'' then (False, cs) else (False, s)))"

text \<open>
  The largest number of digits \<open>int\<close> converts from a string (the default of
  \<open>sys.get_int_max_str_digits()\<close> in CPython 3.11 and later).
\<close>

definition int_max_str_digits :: nat where
  "int_max_str_digits = 4300"

text \<open>
  \<open>int(s)\<close> in base ten: \<open>None\<close> is the \<open>ValueError\<close>, raised for a text that is no
  integer literal and for a literal of more digits than the limit.
\<close>

definition py_int :: "string \<Rightarrow> int option" where
  "py_int s = (let (neg, body) = split_sign (strip s)
               in if digitpart body
                     \<and> length (filter (\<lambda>c. c \<noteq> CHR ''_'') body) \<le> int_max_str_digits
                  then Some (if neg then - int (digits_value body) else int (digits_value body))
                  else None)"

text \<open>\<open>number ::= [digitpart] "." digitpart | digitpart ["."]\<close>\<close>

definition float_number :: "string \<Rightarrow> bool" where
  "float_number s =
     (if CHR ''.'' \<in> set s
      then (let (a, b) = partition_on CHR ''.'' s
            in (a = [] \<or> digitpart a) \<and> (b = [] \<or> digitpart b) \<and> \<not> (a = [] \<and> b = []))
      else digitpart s)"

text \<open>\<open>exponent ::= ("e" | "E") [sign] digitpart\<close>, given without its first letter.\<close>

definition float_exponent :: "string \<Rightarrow> bool" where
  "float_exponent s = digitpart (snd (split_sign s))"

definition is_exp_char :: "char \<Rightarrow> bool" where
  "is_exp_char c = (c = CHR ''e'' \<or> c = CHR ''E'')"

text \<open>
  The strings \<open>float(s)\<close> accepts: \<open>[sign] (number [exponent] | "inf" | "infinity" | "nan")\<close>,
  the words in any letter case.  Any other string is a \<open>ValueError\<close>.
\<close>

definition py_float_ok :: "string \<Rightarrow> bool" where
  "py_float_ok s =
     (let body = snd (split_sign (strip s))
      in if lower body \<in> set [''inf'', ''infinity'', ''nan''] then True
         else if list_ex is_exp_char body
              then float_number (takeWhile (\<lambda>c. \<not> is_exp_char c) body)
                   \<and> float_exponent (drop 1 (dropWhile (\<lambda>c. \<not> is_exp_char c) body))
              else float_number body)"

subsection \<open>The value model\<close>

text \<open>
  The Python values the parser returns: \<open>bool\<close>, \<open>None\<close>, \<open>str\<close>, \<open>int\<close>, \<open>float\<close> and
  \<open>list\<close>.  A map literal is returned as a \<open>str\<close> holding its text, so it is a \<open>VStr\<close>.
  A float is kept as the literal that \<open>float\<close> accepted: its binary rounding is not modelled.
\<close>

datatype pyvalue =
    VNone
  | VBool bool
  | VInt int
  | VFloat string
  | VStr string
  | VList "pyvalue list"

subsection \<open>parse\_value\<close>

text \<open>Lines 79 to 83: strip, then remove one trailing comma and strip again.\<close>

definition norm_value :: "string \<Rightarrow> string" where
  "norm_value raw = (let v = strip raw in if endswith v CHR '','' then strip (butlast v) else v)"

text \<open>Lines 99 to 105: one numeric conversion, chosen by the presence of a dot.\<close>

definition parse_number :: "string \<Rightarrow> pyvalue option" where
  "parse_number v =
     (if CHR ''.'' \<in> set v
      then (if py_float_ok v then Some (VFloat v) else None)
      else map_option VInt (py_int v))"

text \<open>Lines 115 to 118: the stripped, non-empty pieces between commas.\<close>

definition list_items :: "string \<Rightarrow> string list" where
  "list_items inner = filter (\<lambda>item. item \<noteq> []) (map strip (split_on CHR '','' inner))"

lemma length_strip_le: "length (strip s) \<le> length s"
proof -
  have "length (strip s) \<le> length (dropWhile is_space s)"
    unfolding strip_def by (simp add: length_dropWhile_le order_trans [OF length_dropWhile_le])
  also have "\<dots> \<le> length s" by (rule length_dropWhile_le)
  finally show ?thesis .
qed

lemma split_on_piece_le: "p \<in> set (split_on c s) \<Longrightarrow> length p \<le> length s"
proof (induction s arbitrary: p)
  case Nil
  then show ?case by simp
next
  case (Cons x xs)
  show ?case
  proof (cases "x = c")
    case True
    with Cons show ?thesis by (auto simp: le_SucI)
  next
    case False
    show ?thesis
    proof (cases "split_on c xs")
      case Nil
      with Cons False show ?thesis by simp
    next
      case (Cons q qs)
      with Cons.prems False have "p = x # q \<or> p \<in> set qs" by simp
      then show ?thesis
      proof
        assume "p = x # q"
        moreover have "length q \<le> length xs" using Cons.IH [of q] Cons by simp
        ultimately show ?thesis by simp
      next
        assume "p \<in> set qs"
        then have "length p \<le> length xs" using Cons.IH [of p] Cons by simp
        then show ?thesis by simp
      qed
    qed
  qed
qed

lemma list_items_le: "x \<in> set (list_items inner) \<Longrightarrow> length x \<le> length inner"
  unfolding list_items_def
  by (auto intro: order_trans [OF length_strip_le] split_on_piece_le)

lemma slice_inner_less: "v \<noteq> [] \<Longrightarrow> length (slice_inner v) < length v"
  unfolding slice_inner_def by (cases v) auto

lemma norm_value_le: "length (norm_value raw) \<le> length raw"
proof -
  have "length (strip (butlast (strip raw))) \<le> length (butlast (strip raw))"
    by (rule length_strip_le)
  also have "\<dots> \<le> length (strip raw)" by simp
  also have "\<dots> \<le> length raw" by (rule length_strip_le)
  finally have "length (strip (butlast (strip raw))) \<le> length raw" .
  then show ?thesis
    unfolding norm_value_def by (simp add: Let_def length_strip_le)
qed

lemma list_item_shorter:
  assumes "startswith (norm_value raw) c"
    and "x \<in> set (list_items (strip (slice_inner (norm_value raw))))"
  shows "length x < length raw"
proof -
  from assms(1) have ne: "norm_value raw \<noteq> []"
    by (auto simp: startswith_def)
  have "length x \<le> length (strip (slice_inner (norm_value raw)))"
    using assms(2) by (rule list_items_le)
  also have "\<dots> \<le> length (slice_inner (norm_value raw))" by (rule length_strip_le)
  also have "\<dots> < length (norm_value raw)" using ne by (rule slice_inner_less)
  also have "\<dots> \<le> length raw" by (rule norm_value_le)
  finally show ?thesis .
qed

function parse_value :: "string \<Rightarrow> pyvalue" where
  "parse_value raw =
     (if lower (norm_value raw) = ''true'' then VBool True
      else if lower (norm_value raw) = ''false'' then VBool False
      else if lower (norm_value raw) = ''null'' then VNone
      else if startswith (norm_value raw) CHR 0x22 \<and> endswith (norm_value raw) CHR 0x22
           then VStr (slice_inner (norm_value raw))
      else (case parse_number (norm_value raw) of
              Some n \<Rightarrow> n
            | None \<Rightarrow>
                if startswith (norm_value raw) CHR ''['' \<and> endswith (norm_value raw) CHR '']''
                then (if strip (slice_inner (norm_value raw)) = [] then VList []
                      else VList (map parse_value
                                    (list_items (strip (slice_inner (norm_value raw))))))
                else if startswith (norm_value raw) CHR ''{'' \<and> endswith (norm_value raw) CHR ''}''
                     then VStr (norm_value raw)
                else VStr (norm_value raw)))"
  by pat_completeness auto
termination
  by (relation "measure length") (auto intro: list_item_shorter)


declare parse_value.simps [simp del]

text \<open>
  \<open>parse_value\<close> is the value the parser returns when the interpreter's call stack
  suffices.  Each level of list nesting is one more call (line 118), and a call made when no
  stack frame is left raises \<open>RecursionError\<close>, which nothing in the parser catches: the
  first item that raises ends the loop over the items and the call itself.
  \<open>parse_value_limited frames\<close> is the parser run with \<open>frames\<close> stack frames still free
  (CPython's default limit for the whole stack is 1000).
\<close>

datatype parse_error = RecursionError

fun collect_results :: "('e + 'a) list \<Rightarrow> 'e + 'a list" where
  "collect_results [] = Inr []"
| "collect_results (r # rs) =
     (case r of
        Inl e \<Rightarrow> Inl e
      | Inr v \<Rightarrow> (case collect_results rs of Inl e \<Rightarrow> Inl e | Inr vs \<Rightarrow> Inr (v # vs)))"

fun parse_value_limited :: "nat \<Rightarrow> string \<Rightarrow> parse_error + pyvalue" where
  "parse_value_limited 0 raw = Inl RecursionError"
| "parse_value_limited (Suc frames) raw =
     (if lower (norm_value raw) = ''true'' then Inr (VBool True)
      else if lower (norm_value raw) = ''false'' then Inr (VBool False)
      else if lower (norm_value raw) = ''null'' then Inr VNone
      else if startswith (norm_value raw) CHR 0x22 \<and> endswith (norm_value raw) CHR 0x22
           then Inr (VStr (slice_inner (norm_value raw)))
      else (case parse_number (norm_value raw) of
              Some n \<Rightarrow> Inr n
            | None \<Rightarrow>
                if startswith (norm_value raw) CHR ''['' \<and> endswith (norm_value raw) CHR '']''
                then (if strip (slice_inner (norm_value raw)) = [] then Inr (VList [])
                      else (case collect_results
                                   (map (parse_value_limited frames)
                                      (list_items (strip (slice_inner (norm_value raw))))) of
                              Inl e \<Rightarrow> Inl e
                            | Inr items \<Rightarrow> Inr (VList items)))
                else if startswith (norm_value raw) CHR ''{'' \<and> endswith (norm_value raw) CHR ''}''
                     then Inr (VStr (norm_value raw))
                else Inr (VStr (norm_value raw))))"

subsection \<open>Python's \<open>str\<close> and \<open>repr\<close> of a value\<close>

function nat_digits :: "nat \<Rightarrow> string" where
  "nat_digits n =
     (if n < 10 then [''0123456789'' ! n]
      else nat_digits (n div 10) @ [''0123456789'' ! (n mod 10)])"
  by pat_completeness auto
termination
  by (relation "measure id") auto

declare nat_digits.simps [simp del]

definition str_int :: "int \<Rightarrow> string" where
  "str_int i = (if i < 0 then CHR ''-'' # nat_digits (nat (- i)) else nat_digits (nat i))"

text \<open>
  \<open>repr\<close> of a \<open>str\<close>: double quotes when the text holds a single quote and no double
  quote, single quotes otherwise; backslash, the chosen quote, tab, newline and carriage
  return are escaped, other control characters are written \<open>\xNN\<close>.
\<close>

definition repr_char :: "char \<Rightarrow> char \<Rightarrow> string" where
  "repr_char q c =
     (if c = CHR 0x5C then [CHR 0x5C, CHR 0x5C]
      else if c = q then [CHR 0x5C, q]
      else if c = CHR 0x09 then [CHR 0x5C, CHR ''t'']
      else if c = CHR 0x0A then [CHR 0x5C, CHR ''n'']
      else if c = CHR 0x0D then [CHR 0x5C, CHR ''r'']
      else if (of_char c :: nat) < 32 \<or> (of_char c :: nat) = 127
           then [CHR 0x5C, CHR ''x'', ''0123456789abcdef'' ! ((of_char c :: nat) div 16),
                 ''0123456789abcdef'' ! ((of_char c :: nat) mod 16)]
      else [c])"

definition repr_str :: "string \<Rightarrow> string" where
  "repr_str s =
     (let q = (if CHR 0x27 \<in> set s \<and> CHR 0x22 \<notin> set s then CHR 0x22 else CHR 0x27)
      in [q] @ concat (map (repr_char q) s) @ [q])"

text \<open>
  \<open>fstr\<close> stands for \<open>str(float(s))\<close>, the shortest decimal text of the double nearest to
  the literal \<open>s\<close>; it is a parameter of the formatter.
\<close>

fun py_repr :: "(string \<Rightarrow> string) \<Rightarrow> pyvalue \<Rightarrow> string" where
  "py_repr fstr VNone = ''None''"
| "py_repr fstr (VBool b) = (if b then ''True'' else ''False'')"
| "py_repr fstr (VInt i) = str_int i"
| "py_repr fstr (VFloat f) = fstr f"
| "py_repr fstr (VStr s) = repr_str s"
| "py_repr fstr (VList vs) = ''['' @ join '', '' (map (py_repr fstr) vs) @ '']''"

definition py_str :: "(string \<Rightarrow> string) \<Rightarrow> pyvalue \<Rightarrow> string" where
  "py_str fstr v = (case v of VStr s \<Rightarrow> s | _ \<Rightarrow> py_repr fstr v)"

subsection \<open>format\_env\_value\<close>

text \<open>Line 152: a space, or one of dollar, double quote, single quote, backtick, backslash.\<close>

definition needs_quoting :: "string \<Rightarrow> bool" where
  "needs_quoting s =
     (CHR 0x20 \<in> set s \<or> list_ex (\<lambda>c. c \<in> set s) [CHR ''$'', CHR 0x22, CHR 0x27, CHR 0x60, CHR 0x5C])"

text \<open>Line 154: backslashes doubled, then double quotes escaped.\<close>

definition escape_char :: "char \<Rightarrow> string" where
  "escape_char c =
     (if c = CHR 0x5C then [CHR 0x5C, CHR 0x5C]
      else if c = CHR 0x22 then [CHR 0x5C, CHR 0x22]
      else [c])"

definition escape_value :: "string \<Rightarrow> string" where
  "escape_value s = concat (map escape_char s)"

text \<open>
  The formatter, in the order of its \<open>isinstance\<close> tests.  The \<open>dict\<close> branch (lines 144 to
  148) has no case here: \<open>parse_value\<close> returns no \<open>dict\<close>, a map literal being a \<open>str\<close>.
  List items are rendered by \<open>str\<close> (line 142), not by the formatter itself.
\<close>

fun format_env_value :: "(string \<Rightarrow> string) \<Rightarrow> pyvalue \<Rightarrow> string" where
  "format_env_value fstr VNone = []"
| "format_env_value fstr (VBool b) = (if b then ''true'' else ''false'')"
| "format_env_value fstr (VInt i) = str_int i"
| "format_env_value fstr (VFloat f) = fstr f"
| "format_env_value fstr (VList vs) = join '','' (map (py_str fstr) vs)"
| "format_env_value fstr (VStr s) =
     (if needs_quoting s then [CHR 0x22] @ escape_value s @ [CHR 0x22] else s)"

subsection \<open>Files and dictionaries\<close>

text \<open>
  The file system maps a path to the text of the file there.  A \<open>dict\<close> is an association
  list in insertion order with distinct keys: assigning to a key that is present replaces
  its value in place.
\<close>

type_synonym path = string
type_synonym filesystem = "path \<Rightarrow> string option"
type_synonym ('k, 'v) dict = "('k \<times> 'v) list"

fun dict_set :: "('k, 'v) dict \<Rightarrow> 'k \<Rightarrow> 'v \<Rightarrow> ('k, 'v) dict" where
  "dict_set [] k v = [(k, v)]"
| "dict_set ((k', v') # d) k v = (if k' = k then (k, v) # d else (k', v') # dict_set d k v)"

definition dict_keys :: "('k, 'v) dict \<Rightarrow> 'k list" where
  "dict_keys d = map fst d"

text \<open>
  \<open>readlines\<close> of a file opened in text mode: the lines with their terminators, where
  \<open>\n\<close>, \<open>\r\n\<close> and \<open>\r\<close> each end a line and are read as \<open>\n\<close>.
\<close>

fun readlines_from :: "string \<Rightarrow> string \<Rightarrow> string list" where
  "readlines_from cur [] = (if cur = [] then [] else [rev cur])"
| "readlines_from cur (c # cs) =
     (if c = CHR 0x0A then rev (CHR 0x0A # cur) # readlines_from [] cs
      else if c = CHR 0x0D
           then (case cs of
                   [] \<Rightarrow> [rev (CHR 0x0A # cur)]
                 | d # ds \<Rightarrow> if d = CHR 0x0A then rev (CHR 0x0A # cur) # readlines_from [] ds
                             else rev (CHR 0x0A # cur) # readlines_from [] cs)
      else readlines_from (c # cur) cs)"

definition readlines :: "string \<Rightarrow> string list" where
  "readlines text = readlines_from [] text"

text \<open>\<open>Path.name\<close>: the last component of the path.\<close>

definition path_name :: "path \<Rightarrow> string" where
  "path_name p =
     (case rev (filter (\<lambda>c. c \<noteq> [] \<and> c \<noteq> ''.'') (split_on CHR ''/'' p)) of
        [] \<Rightarrow> [] | c # _ \<Rightarrow> c)"

subsection \<open>parse\_tfvars\<close>

datatype error = SourceNotFound

definition open_brackets :: "string \<Rightarrow> int" where
  "open_brackets s = int (count_char s CHR ''{'') + int (count_char s CHR ''['')"

definition close_brackets :: "string \<Rightarrow> int" where
  "close_brackets s = int (count_char s CHR ''}'') + int (count_char s CHR '']'')"

text \<open>
  Lines 59 to 65, the inner loop: the lines collected so far and the lines not yet read.
\<close>

fun collect_multi :: "int \<Rightarrow> string list \<Rightarrow> string list \<Rightarrow> string list \<times> string list" where
  "collect_multi bracket_count multi_value [] = (multi_value, [])"
| "collect_multi bracket_count multi_value (l # ls) =
     (if bracket_count > 0
      then (let next_line = strip l
            in if next_line \<noteq> [] \<and> \<not> startswith next_line CHR ''#''
               then collect_multi
                      (bracket_count + open_brackets next_line - close_brackets next_line)
                      (multi_value @ [next_line]) ls
               else collect_multi bracket_count multi_value ls)
      else (multi_value, l # ls))"

lemma collect_multi_rest_le: "length (snd (collect_multi bc mv ls)) \<le> length ls"
  by (induction ls arbitrary: bc mv) (auto simp: Let_def le_SucI)

lemma collect_multi_rest_lt:
  "collect_multi bc mv ls = (mv', rest) \<Longrightarrow> length rest - Suc 0 < Suc (length ls)"
  using collect_multi_rest_le [of bc mv ls] by simp

text \<open>Lines 43 to 49: key and value of a line holding an equals sign.\<close>

definition assignment_key :: "string \<Rightarrow> string" where
  "assignment_key line = strip (fst (partition_on CHR ''='' line))"

definition assignment_value :: "string \<Rightarrow> string" where
  "assignment_value line =
     (let v = strip (snd (partition_on CHR ''='' line))
      in if CHR ''#'' \<in> set v then strip (fst (partition_on CHR ''#'' v)) else v)"

definition is_comment_or_blank :: "string \<Rightarrow> bool" where
  "is_comment_or_blank line =
     (line = [] \<or> startswith line CHR ''#'' \<or> take 2 line = ''//'')"

text \<open>
  Lines 31 to 74, the outer loop over the lines from the cursor on.  After a multi-line
  value the cursor stands behind the last collected line, and line 72 advances it once more.
\<close>

function parse_lines :: "(string, pyvalue) dict \<Rightarrow> string list \<Rightarrow> (string, pyvalue) dict" where
  "parse_lines variables [] = variables"
| "parse_lines variables (l # ls) =
     (if is_comment_or_blank (strip l) then parse_lines variables ls
      else if CHR ''='' \<in> set (strip l)
           then (if endswith (assignment_value (strip l)) CHR ''{''
                    \<or> endswith (assignment_value (strip l)) CHR ''[''
                 then (case collect_multi
                              (open_brackets (assignment_value (strip l))
                                 - close_brackets (assignment_value (strip l)))
                              [assignment_value (strip l)] ls of
                         (multi_value, rest) \<Rightarrow>
                           parse_lines
                             (dict_set variables (assignment_key (strip l))
                                (parse_value (join '' '' multi_value)))
                             (drop 1 rest))
                 else parse_lines
                        (dict_set variables (assignment_key (strip l))
                           (parse_value (assignment_value (strip l))))
                        ls)
           else parse_lines variables ls)"
  by pat_completeness auto
termination
  by (relation "measure (\<lambda>(variables, ls). length ls)")
     (auto dest: collect_multi_rest_lt collect_multi_rest_lt [OF sym])

declare parse_lines.simps [simp del]

definition parse_tfvars :: "filesystem \<Rightarrow> path \<Rightarrow> error + (string, pyvalue) dict" where
  "parse_tfvars fs tfvars_file =
     (case fs tfvars_file of
        None \<Rightarrow> Inl SourceNotFound
      | Some text \<Rightarrow> Inr (parse_lines [] (readlines text)))"

subsection \<open>read\_env\_file and write\_env\_file\<close>

definition is_quoted :: "string \<Rightarrow> bool" where
  "is_quoted v =
     ((startswith v CHR 0x22 \<and> endswith v CHR 0x22)
      \<or> (startswith v CHR 0x27 \<and> endswith v CHR 0x27))"

text \<open>Lines 169 to 187, the body of the loop over the lines of the file.\<close>

definition read_env_line :: "(string, string) dict \<Rightarrow> string \<Rightarrow> (string, string) dict" where
  "read_env_line env_vars l =
     (let line = strip l
      in if line = [] \<or> startswith line CHR ''#'' then env_vars
         else if CHR ''='' \<in> set line
              then (let key = strip (fst (partition_on CHR ''='' line));
                        v = strip (snd (partition_on CHR ''='' line))
                    in dict_set env_vars key (if is_quoted v then slice_inner v else v))
              else env_vars)"

definition read_env_file :: "filesystem \<Rightarrow> path \<Rightarrow> (string, string) dict" where
  "read_env_file fs env_file =
     (case fs env_file of
        None \<Rightarrow> []
      | Some text \<Rightarrow> foldl read_env_line [] (readlines text))"

text \<open>Lines 196 to 198: a header that is \<open>None\<close> or empty writes nothing.\<close>

definition header_block :: "string option \<Rightarrow> string" where
  "header_block header =
     (case header of
        None \<Rightarrow> []
      | Some h \<Rightarrow> if h = [] then [] else h @ [CHR 0x0A, CHR 0x0A])"

text \<open>Line 203: the line of one key, whose value is looked up in the dictionary.\<close>

definition env_line :: "(string, string) dict \<Rightarrow> string \<Rightarrow> string" where
  "env_line variables key = key @ ''='' @ the (map_of variables key) @ [CHR 0x0A]"

definition env_text :: "(string, string) dict \<Rightarrow> string option \<Rightarrow> string" where
  "env_text variables header =
     header_block header @ concat (map (env_line variables) (sort (dict_keys variables)))"

definition write_env_file ::
  "filesystem \<Rightarrow> path \<Rightarrow> (string, string) dict \<Rightarrow> string option \<Rightarrow> filesystem" where
  "write_env_file fs env_file variables header = fs(env_file \<mapsto> env_text variables header)"

subsection \<open>sync\_tfvars\_to\_env\<close>

record summary =
  new_count :: nat
  updated_count :: nat
  total_count :: nat

text \<open>Lines 233 to 243, the body of the merge loop: (env\_vars, updated\_count, new\_count).\<close>

definition merge_step ::
  "(string \<Rightarrow> string) \<Rightarrow> string \<Rightarrow> (string, string) dict \<times> nat \<times> nat \<Rightarrow> string \<times> pyvalue
     \<Rightarrow> (string, string) dict \<times> nat \<times> nat" where
  "merge_step fstr prefix st kv =
     (case st of (env_vars, updated, new) \<Rightarrow>
        (let env_key = prefix @ upper (fst kv);
             env_value = format_env_value fstr (snd kv)
         in (dict_set env_vars env_key env_value,
             (if env_key \<in> set (dict_keys env_vars) \<and> map_of env_vars env_key \<noteq> Some env_value
              then updated + 1 else updated),
             (if env_key \<in> set (dict_keys env_vars) then new else new + 1))))"

definition merge_vars ::
  "(string \<Rightarrow> string) \<Rightarrow> string \<Rightarrow> (string, pyvalue) dict \<Rightarrow> (string, string) dict
     \<Rightarrow> (string, string) dict \<times> nat \<times> nat" where
  "merge_vars fstr prefix tfvars env_vars =
     foldl (merge_step fstr prefix) (env_vars, 0, 0) tfvars"

definition sync_header :: "path \<Rightarrow> string" where
  "sync_header tfvars_file =
     ''# Environment variables synced from '' @ path_name tfvars_file @ [CHR 0x0A]
     @ ''# Generated by sync-tfvars-to-env.py'' @ [CHR 0x0A]
     @ ''# DO NOT EDIT THIS FILE MANUALLY - Changes will be overwritten'' @ [CHR 0x0A]
     @ ''#'' @ [CHR 0x0A]
     @ ''# To update: make sync-env or run scripts/sync-tfvars-to-env.py''"

text \<open>
  The run: the file system after it, and the printed summary or the error that ended it.
\<close>

definition sync_tfvars_to_env ::
  "(string \<Rightarrow> string) \<Rightarrow> filesystem \<Rightarrow> path \<Rightarrow> path \<Rightarrow> string \<Rightarrow> bool
     \<Rightarrow> filesystem \<times> (error + summary)" where
  "sync_tfvars_to_env fstr fs tfvars_file env_file prefix overwrite =
     (case parse_tfvars fs tfvars_file of
        Inl e \<Rightarrow> (fs, Inl e)
      | Inr tfvars \<Rightarrow>
          (case merge_vars fstr prefix tfvars
                  (if overwrite then [] else read_env_file fs env_file) of
             (env_vars, updated, new) \<Rightarrow>
               (write_env_file fs env_file env_vars (Some (sync_header tfvars_file)),
                Inr \<lparr>new_count = new, updated_count = updated,
                     total_count = length env_vars\<rparr>)))"

subsection \<open>Size of a value\<close>

text \<open>The number of nodes of a value: one for a scalar, one more than its items for a list.\<close>

fun value_nodes :: "pyvalue \<Rightarrow> nat" where
  "value_nodes (VList vs) = Suc (sum_list (map value_nodes vs))"
| "value_nodes v = 1"

text \<open>The depth of a value: one for a scalar, one more than its deepest item for a list.\<close>

fun value_depth :: "pyvalue \<Rightarrow> nat" where
  "value_depth (VList vs) = Suc (foldr max (map value_depth vs) 0)"
| "value_depth v = 1"

text \<open>The literal of \<open>n + 1\<close> empty lists nested in each other.\<close>

fun nested_brackets :: "nat \<Rightarrow> string" where
  "nested_brackets 0 = ''[]''"
| "nested_brackets (Suc n) = ''['' @ nested_brackets n @ '']''"

section \<open>Properties\<close>

subsection \<open>Dictionaries and the merge loop\<close>

lemma dict_set_keys: "set (dict_keys (dict_set d k v)) = insert k (set (dict_keys d))"
proof (induction d)
  case Nil
  show ?case by (simp add: dict_keys_def)
next
  case (Cons a d)
  obtain k' v' where a: "a = (k', v')" by (cases a)
  from Cons show ?case unfolding a dict_keys_def by (cases "k' = k") auto
qed

lemma length_dict_set:
  "length (dict_set d k v) = (if k \<in> set (dict_keys d) then length d else Suc (length d))"
proof (induction d)
  case Nil
  show ?case by (simp add: dict_keys_def)
next
  case (Cons a d)
  obtain k' v' where a: "a = (k', v')" by (cases a)
  from Cons show ?case unfolding a dict_keys_def by (cases "k' = k") auto
qed

lemma map_of_dict_set: "map_of (dict_set d k v) = (map_of d)(k \<mapsto> v)"
  by (induction d) (auto simp: fun_eq_iff)

lemma distinct_dict_set: "distinct (dict_keys d) \<Longrightarrow> distinct (dict_keys (dict_set d k v))"
proof (induction d)
  case Nil
  then show ?case by (simp add: dict_keys_def)
next
  case (Cons a d)
  have "set (dict_keys (dict_set d k v)) = insert k (set (dict_keys d))"
    by (rule dict_set_keys)
  with Cons show ?case
    by (cases a) (auto simp: dict_keys_def)
qed

lemma merge_step_env:
  "fst (merge_step fstr prefix st kv)
     = dict_set (fst st) (prefix @ upper (fst kv)) (format_env_value fstr (snd kv))"
  by (cases st) (simp add: merge_step_def Let_def)

lemma merge_step_count:
  "length (fst (merge_step fstr prefix st kv)) + snd (snd st)
     = length (fst st) + snd (snd (merge_step fstr prefix st kv))"
  by (cases st) (simp add: merge_step_def Let_def length_dict_set)

lemma merge_fold_count:
  "length (fst (foldl (merge_step fstr prefix) st tfvars)) + snd (snd st)
     = length (fst st) + snd (snd (foldl (merge_step fstr prefix) st tfvars))"
proof (induction tfvars arbitrary: st)
  case Nil
  then show ?case by simp
next
  case (Cons kv tfvars)
  from Cons [of "merge_step fstr prefix st kv"] merge_step_count [of fstr prefix st kv]
  show ?case by simp
qed

lemma merge_fold_keys:
  "set (dict_keys (fst st)) \<subseteq> set (dict_keys (fst (foldl (merge_step fstr prefix) st tfvars)))"
proof (induction tfvars arbitrary: st)
  case Nil
  then show ?case by simp
next
  case (Cons kv tfvars)
  have "set (dict_keys (fst st)) \<subseteq> set (dict_keys (fst (merge_step fstr prefix st kv)))"
    by (auto simp: merge_step_env dict_set_keys)
  with Cons [of "merge_step fstr prefix st kv"] show ?case by auto
qed

lemma merge_fold_frame:
  "k \<notin> set (map (\<lambda>kv. prefix @ upper (fst kv)) tfvars) \<Longrightarrow>
   map_of (fst (foldl (merge_step fstr prefix) st tfvars)) k = map_of (fst st) k"
proof (induction tfvars arbitrary: st)
  case Nil
  then show ?case by simp
next
  case (Cons kv tfvars)
  then have "k \<noteq> prefix @ upper (fst kv)" by auto
  then have "map_of (fst (merge_step fstr prefix st kv)) k = map_of (fst st) k"
    by (simp add: merge_step_env map_of_dict_set)
  with Cons show ?case by simp
qed

lemma distinct_read_env_file: "distinct (dict_keys (read_env_file fs env_file))"
proof -
  have "distinct (dict_keys d) \<Longrightarrow> distinct (dict_keys (foldl read_env_line d ls))" for d ls
    by (induction ls arbitrary: d) (simp_all add: read_env_line_def Let_def distinct_dict_set)
  from this [of "[]"] show ?thesis
    by (simp add: read_env_file_def dict_keys_def split: option.splits)
qed

lemma distinct_merge_vars:
  "distinct (dict_keys env_vars) \<Longrightarrow>
   distinct (dict_keys (fst (merge_vars fstr prefix tfvars env_vars)))"
proof -
  have "distinct (dict_keys (fst st)) \<Longrightarrow>
        distinct (dict_keys (fst (foldl (merge_step fstr prefix) st tfvars)))" for st
    by (induction tfvars arbitrary: st) (simp_all add: merge_step_env distinct_dict_set)
  from this [of "(env_vars, 0, 0)"] show "distinct (dict_keys env_vars) \<Longrightarrow> ?thesis"
    by (simp add: merge_vars_def)
qed

subsection \<open>The parser\<close>

lemma strip_Nil: "strip [] = []"
  by (simp add: strip_def)

lemma list_items_Nil: "list_items [] = []"
  by (simp add: list_items_def strip_Nil)

lemma strip_Cons_nonspace: "\<not> is_space c \<Longrightarrow> strip (c # s) = c # rev (dropWhile is_space (rev s))"
  by (simp add: strip_def dropWhile_append3)

lemma brace_not_space: "\<not> is_space CHR ''{''"
  by (simp add: is_space_def)

lemma float_number_brace: "\<not> float_number (CHR ''{'' # m)"
  by (simp add: float_number_def partition_on_def digitpart_def is_digit_def)

lemma py_int_brace: "py_int (CHR ''{'' # t) = None"
  by (simp add: py_int_def strip_Cons_nonspace brace_not_space split_sign_def digitpart_def
      is_digit_def)

lemma py_float_brace: "\<not> py_float_ok (CHR ''{'' # t)"
  by (simp add: py_float_ok_def strip_Cons_nonspace brace_not_space split_sign_def Let_def
      lower_def lower_char_def is_exp_char_def float_number_brace)

lemma parse_number_brace: "parse_number (CHR ''{'' # t) = None"
  by (simp add: parse_number_def py_int_brace py_float_brace)

lemma parse_value_brace:
  assumes "startswith (norm_value raw) CHR ''{''"
  shows "parse_value raw = VStr (norm_value raw)"
proof -
  from assms obtain t where v: "norm_value raw = CHR ''{'' # t"
    by (auto simp: startswith_def split: list.splits)
  show ?thesis
    by (subst parse_value.simps)
       (simp add: v parse_number_brace lower_def lower_char_def startswith_def)
qed

lemma parse_value_default:
  assumes "lower (norm_value raw) \<noteq> ''true''"
    and "lower (norm_value raw) \<noteq> ''false''"
    and "lower (norm_value raw) \<noteq> ''null''"
    and "\<not> (startswith (norm_value raw) CHR 0x22 \<and> endswith (norm_value raw) CHR 0x22)"
    and "parse_number (norm_value raw) = None"
    and "\<not> (startswith (norm_value raw) CHR ''['' \<and> endswith (norm_value raw) CHR '']'')"
  shows "parse_value raw = VStr (norm_value raw)"
  using assms by (subst parse_value.simps) auto

lemma split_on_not_Nil: "split_on c s \<noteq> []"
  by (induction s) (auto split: list.splits)

lemma split_on_total_length:
  "sum_list (map (\<lambda>p. Suc (length p)) (split_on c s)) = Suc (length s)"
proof (induction s)
  case Nil
  show ?case by simp
next
  case (Cons x xs)
  then show ?case
    by (cases "split_on c xs") (auto simp: split_on_not_Nil)
qed

lemma list_items_total_length:
  "sum_list (map (\<lambda>p. Suc (length p)) (list_items inner)) \<le> Suc (length inner)"
proof -
  have a: "sum_list (map (\<lambda>p. Suc (length p)) (filter (\<lambda>item. item \<noteq> []) (map strip ps)))
             \<le> sum_list (map (\<lambda>p. Suc (length p)) ps)" for ps
    using length_strip_le by (induction ps) (auto simp: le_SucI add_le_mono trans_le_add2)
  show ?thesis
    unfolding list_items_def
    using a [of "split_on CHR '','' inner"] split_on_total_length [of "CHR '',''" inner]
    by simp
qed

lemma wrapped_length:
  assumes "startswith v a" and "endswith v b" and "a \<noteq> b"
  shows "Suc (Suc (length (slice_inner v))) = length v"
proof -
  from assms(1) obtain t where v: "v = a # t"
    by (auto simp: startswith_def split: list.splits)
  with assms(2,3) have "t \<noteq> []" by (auto simp: endswith_def)
  then show ?thesis by (simp add: v slice_inner_def)
qed

lemma sum_list_map_le:
  "(\<And>x. x \<in> set xs \<Longrightarrow> f x \<le> g x) \<Longrightarrow> sum_list (map f xs) \<le> sum_list (map g xs)"
  for f g :: "'a \<Rightarrow> nat"
  by (induction xs) (auto simp: add_le_mono)

lemma parse_value_nodes: "value_nodes (parse_value raw) \<le> Suc (length raw)"
proof (induction raw rule: parse_value.induct)
  case (1 raw)
  let ?v = "norm_value raw"
  let ?items = "list_items (strip (slice_inner ?v))"
  show ?case
  proof (cases "lower ?v = ''true'' \<or> lower ?v = ''false'' \<or> lower ?v = ''null''
                \<or> (startswith ?v CHR 0x22 \<and> endswith ?v CHR 0x22)")
    case True
    then have "value_nodes (parse_value raw) = 1"
      by (subst parse_value.simps) auto
    then show ?thesis by simp
  next
    case False
    then have nb: "lower ?v \<noteq> ''true''" "lower ?v \<noteq> ''false''" "lower ?v \<noteq> ''null''"
      "\<not> (startswith ?v CHR 0x22 \<and> endswith ?v CHR 0x22)"
      by blast+
    show ?thesis
    proof (cases "parse_number ?v")
      case (Some n)
      with nb have "parse_value raw = n" by (subst parse_value.simps) auto
      moreover from Some have "value_nodes n = 1"
        by (auto simp: parse_number_def split: if_splits)
      ultimately show ?thesis by simp
    next
      case None
      show ?thesis
      proof (cases "startswith ?v CHR ''['' \<and> endswith ?v CHR '']''")
        case nolist: False
        with nb None have "parse_value raw = VStr ?v"
          by (subst parse_value.simps) auto
        then show ?thesis by simp
      next
        case w: True
        have pv: "parse_value raw = VList (map parse_value ?items)"
          using nb None w by (subst parse_value.simps) (auto simp: list_items_Nil)
        have "sum_list (map (\<lambda>x. value_nodes (parse_value x)) ?items)
                \<le> sum_list (map (\<lambda>p. Suc (length p)) ?items)"
        proof (rule sum_list_map_le)
          fix x assume x: "x \<in> set ?items"
          show "value_nodes (parse_value x) \<le> Suc (length x)"
          proof (cases "strip (slice_inner ?v) = []")
            case True
            with x show ?thesis by (simp add: list_items_Nil)
          next
            case False
            show ?thesis
              using nb w by (intro "1.IH" [OF _ _ _ _ None _ False x]) blast+
          qed
        qed
        also have "\<dots> \<le> Suc (length (strip (slice_inner ?v)))"
          by (rule list_items_total_length)
        also have "\<dots> \<le> Suc (length (slice_inner ?v))"
          by (simp add: length_strip_le)
        finally have "value_nodes (parse_value raw) \<le> Suc (Suc (length (slice_inner ?v)))"
          by (simp add: pv comp_def)
        also have "\<dots> = length ?v" using w by (intro wrapped_length) auto
        also have "\<dots> \<le> length raw" by (rule norm_value_le)
        finally show ?thesis by simp
      qed
    qed
  qed
qed

subsection \<open>The parser and the call stack\<close>

lemma value_depth_pos: "0 < value_depth v"
  by (cases v) simp_all

lemma foldr_max_le: "foldr max ys (0::nat) \<le> d \<longleftrightarrow> (\<forall>y \<in> set ys. y \<le> d)"
  by (induction ys) auto

lemma foldr_max_le_sum: "foldr max (map f xs) (0::nat) \<le> sum_list (map g xs)"
  if "\<And>x. x \<in> set xs \<Longrightarrow> f x \<le> g x"
  using that by (induction xs) (auto simp: max_def trans_le_add1 trans_le_add2)

lemma value_depth_le_nodes: "value_depth v \<le> value_nodes v"
proof (induction v)
  case (VList vs)
  then show ?case by (simp add: foldr_max_le_sum)
qed simp_all

lemma collect_results_all:
  "collect_results (map (\<lambda>x. if P x then Inr (f x) else Inl e) xs)
     = (if \<forall>x \<in> set xs. P x then Inr (map f xs) else Inl e)"
  by (induction xs) auto

lemma parse_value_limited_exact:
  "parse_value_limited frames raw
     = (if value_depth (parse_value raw) \<le> frames then Inr (parse_value raw)
        else Inl RecursionError)"
proof (induction frames arbitrary: raw)
  case 0
  show ?case using value_depth_pos [of "parse_value raw"] by simp
next
  case (Suc frames)
  let ?v = "norm_value raw"
  let ?items = "list_items (strip (slice_inner ?v))"
  show ?case
  proof (cases "lower ?v = ''true'' \<or> lower ?v = ''false'' \<or> lower ?v = ''null''
                \<or> (startswith ?v CHR 0x22 \<and> endswith ?v CHR 0x22)")
    case True
    then have pv: "parse_value raw =
        (if lower ?v = ''true'' then VBool True
         else if lower ?v = ''false'' then VBool False
         else if lower ?v = ''null'' then VNone
         else VStr (slice_inner ?v))"
      by (subst parse_value.simps) auto
    from True show ?thesis by (auto simp: pv)
  next
    case False
    then have nb: "lower ?v \<noteq> ''true''" "lower ?v \<noteq> ''false''" "lower ?v \<noteq> ''null''"
      "\<not> (startswith ?v CHR 0x22 \<and> endswith ?v CHR 0x22)"
      by blast+
    show ?thesis
    proof (cases "parse_number ?v")
      case (Some n)
      with nb have pv: "parse_value raw = n" by (subst parse_value.simps) auto
      from Some have "value_depth n = 1"
        by (auto simp: parse_number_def split: if_splits)
      with nb Some show ?thesis by (auto simp: pv)
    next
      case None
      show ?thesis
      proof (cases "startswith ?v CHR ''['' \<and> endswith ?v CHR '']''")
        case False
        with nb None have pv: "parse_value raw = VStr ?v"
          by (subst parse_value.simps) auto
        from nb None False show ?thesis by (auto simp: pv)
      next
        case w: True
        have pv: "parse_value raw = VList (map parse_value ?items)"
          using nb None w by (subst parse_value.simps) (auto simp: list_items_Nil)
        have c: "collect_results (map (parse_value_limited frames) ?items)
                   = (if \<forall>x \<in> set ?items. value_depth (parse_value x) \<le> frames
                      then Inr (map parse_value ?items) else Inl RecursionError)"
          using collect_results_all
            [of "\<lambda>x. value_depth (parse_value x) \<le> frames" parse_value RecursionError ?items]
          by (simp add: Suc.IH [abs_def])
        have d: "value_depth (parse_value raw) \<le> Suc frames
                   \<longleftrightarrow> (\<forall>x \<in> set ?items. value_depth (parse_value x) \<le> frames)"
          by (simp add: pv foldr_max_le)
        show ?thesis
        proof (cases "strip (slice_inner ?v) = []")
          case True
          with nb None w show ?thesis by (auto simp: pv list_items_Nil)
        next
          case False
          with nb None w show ?thesis
            unfolding d by (auto simp: c pv [symmetric])
        qed
      qed
    qed
  qed
qed

lemma nested_brackets_replicate:
  "nested_brackets n = replicate (Suc n) CHR ''['' @ replicate (Suc n) CHR '']''"
  by (induction n) (simp_all add: replicate_append_same)

lemma nested_brackets_chars: "set (nested_brackets n) \<subseteq> {CHR ''['', CHR '']''}"
  by (induction n) auto

lemma nested_brackets_form: "\<exists>x. nested_brackets n = CHR ''['' # x @ '']''"
  by (cases n) auto

lemma strip_wrapped:
  "\<not> is_space a \<Longrightarrow> \<not> is_space b \<Longrightarrow> strip (a # x @ [b]) = a # x @ [b]"
  by (simp add: strip_def)

lemma split_on_no_sep: "c \<notin> set s \<Longrightarrow> split_on c s = [s]"
  by (induction s) auto

lemma float_number_bracket: "\<not> float_number (CHR ''['' # m)"
  by (simp add: float_number_def partition_on_def digitpart_def is_digit_def)

lemma parse_number_bracket: "parse_number (CHR ''['' # t @ '']'') = None"
proof -
  have sp: "strip (CHR ''['' # t @ '']'') = CHR ''['' # t @ '']''"
    by (rule strip_wrapped) (simp_all add: is_space_def)
  have "py_int (CHR ''['' # t @ '']'') = None"
    by (simp add: py_int_def sp split_sign_def digitpart_def is_digit_def)
  moreover have "\<not> py_float_ok (CHR ''['' # t @ '']'')"
    by (simp add: py_float_ok_def sp split_sign_def Let_def lower_def lower_char_def
        is_exp_char_def float_number_bracket)
  ultimately show ?thesis by (simp add: parse_number_def)
qed

lemma norm_value_bracket: "norm_value (CHR ''['' # t @ '']'') = CHR ''['' # t @ '']''"
proof -
  have sp: "strip (CHR ''['' # t @ '']'') = CHR ''['' # t @ '']''"
    by (rule strip_wrapped) (simp_all add: is_space_def)
  show ?thesis by (simp add: norm_value_def sp endswith_def)
qed

lemma list_items_nested: "list_items (strip (nested_brackets n)) = [nested_brackets n]"
proof -
  obtain x where f: "nested_brackets n = CHR ''['' # x @ '']''"
    using nested_brackets_form by blast
  have sp: "strip (nested_brackets n) = nested_brackets n"
    unfolding f by (rule strip_wrapped) (simp_all add: is_space_def)
  have "CHR '','' \<notin> set (nested_brackets n)"
    using nested_brackets_chars [of n] by auto
  then have "split_on CHR '','' (nested_brackets n) = [nested_brackets n]"
    by (rule split_on_no_sep)
  then show ?thesis by (simp add: list_items_def sp) (simp add: f)
qed

lemma parse_value_limited_nested:
  "parse_value_limited (Suc frames) (''['' @ nested_brackets n @ '']'')
     = (case parse_value_limited frames (nested_brackets n) of
          Inl e \<Rightarrow> Inl e
        | Inr v \<Rightarrow> Inr (VList [v]))"
proof -
  obtain x where f: "nested_brackets n = CHR ''['' # x @ '']''"
    using nested_brackets_form by blast
  let ?s = "CHR ''['' # nested_brackets n @ '']''"
  have nv: "norm_value ?s = ?s" by (rule norm_value_bracket)
  have sl: "slice_inner ?s = nested_brackets n" by (simp add: slice_inner_def)
  have sp: "strip (nested_brackets n) \<noteq> []"
    using list_items_nested [of n] by (auto simp: list_items_Nil)
  have "parse_value_limited (Suc frames) ?s
          = (case collect_results (map (parse_value_limited frames) [nested_brackets n]) of
               Inl e \<Rightarrow> Inl e | Inr items \<Rightarrow> Inr (VList items))"
    using sp
    by (simp add: nv sl parse_number_bracket list_items_nested lower_def lower_char_def
        startswith_def endswith_def)
  then show ?thesis by (simp split: sum.splits)
qed

lemma deep_nesting_raises:
  "parse_value_limited frames (nested_brackets frames) = Inl RecursionError"
proof (induction frames)
  case 0
  show ?case by simp
next
  case (Suc frames)
  have "parse_value_limited (Suc frames) (nested_brackets (Suc frames))
          = (case parse_value_limited frames (nested_brackets frames) of
               Inl e \<Rightarrow> Inl e | Inr v \<Rightarrow> Inr (VList [v]))"
    using parse_value_limited_nested [of frames frames] by simp
  with Suc show ?case by simp
qed

subsection \<open>The writer\<close>

lemma env_line_lookup:
  "distinct (dict_keys variables) \<Longrightarrow> (k, v) \<in> set variables \<Longrightarrow>
   env_line variables k = k @ ''='' @ v @ [CHR 0x0A]"
  by (simp add: env_line_def dict_keys_def)

lemma env_text_permutation:
  assumes "distinct (dict_keys variables)" and "distinct (dict_keys variables')"
    and "set variables' = set variables"
  shows "env_text variables' header = env_text variables header"
proof -
  have keys: "set (dict_keys variables') = set (dict_keys variables)"
    using assms(3) by (simp add: dict_keys_def)
  have "sort (dict_keys variables') = sort (dict_keys variables)"
    using assms(1,2) keys by (intro sorted_distinct_set_unique) simp_all
  moreover have "map_of variables' = map_of variables"
    using assms by (simp add: map_of_inject_set dict_keys_def)
  then have "env_line variables' = env_line variables"
    by (simp add: env_line_def fun_eq_iff)
  ultimately show ?thesis by (simp add: env_text_def)
qed

subsection \<open>Claims\<close>



text \<open>
  C6: in a run without overwrite, a key of the destination file that is not the transformed
  key of any source variable is in the dictionary the run writes, with the value it had.
\<close>

theorem merge_keeps_absent_keys:
  assumes "parse_tfvars fs tfvars_file = Inr tfvars"
    and "map_of (read_env_file fs env_file) k = Some v"
    and "k \<notin> set (map (\<lambda>kv. prefix @ upper (fst kv)) tfvars)"
  shows "fst (sync_tfvars_to_env fstr fs tfvars_file env_file prefix False) env_file
           = Some (env_text (fst (merge_vars fstr prefix tfvars (read_env_file fs env_file)))
                     (Some (sync_header tfvars_file)))
         \<and> map_of (fst (merge_vars fstr prefix tfvars (read_env_file fs env_file))) k = Some v"
proof
  show "fst (sync_tfvars_to_env fstr fs tfvars_file env_file prefix False) env_file
           = Some (env_text (fst (merge_vars fstr prefix tfvars (read_env_file fs env_file)))
                     (Some (sync_header tfvars_file)))"
    using assms(1)
    by (simp add: sync_tfvars_to_env_def write_env_file_def split: prod.splits)
  show "map_of (fst (merge_vars fstr prefix tfvars (read_env_file fs env_file))) k = Some v"
    using merge_fold_frame [OF assms(3), of fstr "(read_env_file fs env_file, 0, 0)"] assms(2)
    by (simp add: merge_vars_def)
qed

theorem merge_keeps_absent_keys_witness:
  "map_of (fst (merge_vars (\<lambda>s. s) ''TF_'' [(''a'', VInt 1)]
                  (read_env_file [''t.tfvars'' \<mapsto> ''a = 1'',
                                  ''.env'' \<mapsto> ''KEEP=yes'' @ [CHR 0x0A] @ ''TF_A=0'']
                     ''.env'')))
      ''KEEP'' = Some ''yes''"
proof -
  let ?fs = "[''t.tfvars'' \<mapsto> ''a = 1'', ''.env'' \<mapsto> ''KEEP=yes'' @ [CHR 0x0A] @ ''TF_A=0'']"
  have h1: "parse_tfvars ?fs ''t.tfvars'' = Inr [(''a'', VInt 1)]" by code_simp
  have h2: "map_of (read_env_file ?fs ''.env'') ''KEEP'' = Some ''yes''" by code_simp
  have h3: "''KEEP'' \<notin> set (map (\<lambda>kv. ''TF_'' @ upper (fst kv)) [(''a'', VInt 1)])"
    by code_simp
  from merge_keeps_absent_keys [OF h1 h2 h3, of "\<lambda>s. s"] show ?thesis by simp
qed

text \<open>
  C10: the total the run reports is the size of the dictionary the merge started from (the
  destination file's, or the empty one under overwrite) plus the number of new variables it
  reports, and every key the merge started from is still a key of the merged dictionary.
\<close>

theorem sync_total_count:
  assumes "snd (sync_tfvars_to_env fstr fs tfvars_file env_file prefix overwrite) = Inr s"
  shows "total_count s
           = length (if overwrite then [] else read_env_file fs env_file) + new_count s
         \<and> (\<forall>tfvars. parse_tfvars fs tfvars_file = Inr tfvars \<longrightarrow>
               set (dict_keys (if overwrite then [] else read_env_file fs env_file))
               \<subseteq> set (dict_keys (fst (merge_vars fstr prefix tfvars
                                          (if overwrite then [] else read_env_file fs env_file)))))"
proof
  show "total_count s
           = length (if overwrite then [] else read_env_file fs env_file) + new_count s"
  proof (cases "parse_tfvars fs tfvars_file")
    case (Inl e)
    with assms show ?thesis by (simp add: sync_tfvars_to_env_def)
  next
    case (Inr tfvars)
    define env0 where "env0 = (if overwrite then [] else read_env_file fs env_file)"
    define r where "r = foldl (merge_step fstr prefix) (env0, 0, 0) tfvars"
    have s: "s = \<lparr>new_count = snd (snd r), updated_count = fst (snd r),
                  total_count = length (fst r)\<rparr>"
      using assms Inr unfolding sync_tfvars_to_env_def merge_vars_def r_def env0_def
      by (cases overwrite) (auto split: prod.splits)
    have "length (fst r) + 0 = length env0 + snd (snd r)"
      using merge_fold_count [of fstr prefix "(env0, 0, 0)" tfvars] by (simp add: r_def)
    with s show ?thesis by (simp add: env0_def)
  qed
  show "\<forall>tfvars. parse_tfvars fs tfvars_file = Inr tfvars \<longrightarrow>
               set (dict_keys (if overwrite then [] else read_env_file fs env_file))
               \<subseteq> set (dict_keys (fst (merge_vars fstr prefix tfvars
                                          (if overwrite then [] else read_env_file fs env_file))))"
    using merge_fold_keys [of "(if overwrite then [] else read_env_file fs env_file, 0, 0)"]
    by (simp add: merge_vars_def)
qed

theorem sync_total_count_witness:
  "snd (sync_tfvars_to_env (\<lambda>s. s)
          [''t.tfvars'' \<mapsto> ''a = 1'', ''.env'' \<mapsto> ''KEEP=yes''] ''t.tfvars'' ''.env'' [] False)
     = Inr \<lparr>new_count = 1, updated_count = 0, total_count = 2\<rparr>
   \<and> total_count \<lparr>new_count = 1, updated_count = 0, total_count = 2\<rparr>
       = length (read_env_file [''t.tfvars'' \<mapsto> ''a = 1'', ''.env'' \<mapsto> ''KEEP=yes''] ''.env'')
         + new_count \<lparr>new_count = 1, updated_count = 0, total_count = 2\<rparr>"
proof -
  let ?fs = "[''t.tfvars'' \<mapsto> ''a = 1'', ''.env'' \<mapsto> ''KEEP=yes'']"
  have h: "snd (sync_tfvars_to_env (\<lambda>s. s) ?fs ''t.tfvars'' ''.env'' [] False)
             = Inr \<lparr>new_count = 1, updated_count = 0, total_count = 2\<rparr>"
    by code_simp
  from sync_total_count [OF h] h show ?thesis by simp
qed

text \<open>
  C1: a second run without overwrite on an unchanged source should report no updated
  variable.  For the source line \<open>name = "hello world"\<close> the first run writes
  \<open>NAME="hello world"\<close>; the second run reads the value back without its quotes, compares
  it with the quoted text it is about to write, and reports one updated variable.  The
  destination file itself is the same after both runs.
\<close>

theorem sync_twice_counts_update:
  \<open>snd (sync_tfvars_to_env id [''terraform.tfvars'' \<mapsto> ''name = "hello world"'' @ [CHR 0x0A]]
          ''terraform.tfvars'' ''.env'' [] False)
     = Inr \<lparr>new_count = 1, updated_count = 0, total_count = 1\<rparr>
   \<and> snd (sync_tfvars_to_env id
            (fst (sync_tfvars_to_env id
                    [''terraform.tfvars'' \<mapsto> ''name = "hello world"'' @ [CHR 0x0A]]
                    ''terraform.tfvars'' ''.env'' [] False))
            ''terraform.tfvars'' ''.env'' [] False)
       = Inr \<lparr>new_count = 0, updated_count = 1, total_count = 1\<rparr>
   \<and> fst (sync_tfvars_to_env id
            (fst (sync_tfvars_to_env id
                    [''terraform.tfvars'' \<mapsto> ''name = "hello world"'' @ [CHR 0x0A]]
                    ''terraform.tfvars'' ''.env'' [] False))
            ''terraform.tfvars'' ''.env'' [] False) ''.env''
       = fst (sync_tfvars_to_env id
                [''terraform.tfvars'' \<mapsto> ''name = "hello world"'' @ [CHR 0x0A]]
                ''terraform.tfvars'' ''.env'' [] False) ''.env''
   \<and> read_env_file
         (fst (sync_tfvars_to_env id
                 [''terraform.tfvars'' \<mapsto> ''name = "hello world"'' @ [CHR 0x0A]]
                 ''terraform.tfvars'' ''.env'' [] False)) ''.env''
       = [(''NAME'', ''hello world'')]
   \<and> format_env_value id (parse_value ''"hello world"'') = ''"hello world"''\<close>
  by code_simp

text \<open>
  C2: the items of a list are rendered by Python's \<open>str\<close> and joined with commas, so the
  list \<open>[true, null]\<close> is written \<open>True,None\<close>, while the formatter writes the scalar \<open>true\<close>
  as \<open>true\<close> and \<open>null\<close> as the empty text.
\<close>

theorem format_list_uses_str:
  "parse_value ''[true, null]'' = VList [VBool True, VNone]
   \<and> format_env_value id (parse_value ''[true, null]'') = ''True,None''
   \<and> format_env_value id (VBool True) = ''true''
   \<and> format_env_value id VNone = []"
  by code_simp

text \<open>
  C3, as amended: a literal wrapped in braces is parsed to a string holding its text, and
  the formatter emits it by its string rule: unchanged when it needs no quoting, otherwise
  between double quotes with backslashes and double quotes escaped.
\<close>

theorem format_map_literal:
  assumes "startswith (norm_value raw) CHR ''{''" and "endswith (norm_value raw) CHR ''}''"
  shows "parse_value raw = VStr (norm_value raw)
         \<and> format_env_value fstr (parse_value raw)
             = (if needs_quoting (norm_value raw)
                then [CHR 0x22] @ escape_value (norm_value raw) @ [CHR 0x22]
                else norm_value raw)"
  using parse_value_brace [OF assms(1)] by simp

theorem format_map_literal_witness:
  "format_env_value id (parse_value ''{a=1}'') = ''{a=1}''"
proof -
  have h1: "startswith (norm_value ''{a=1}'') CHR ''{''" by code_simp
  have h2: "endswith (norm_value ''{a=1}'') CHR ''}''" by code_simp
  have h3: "\<not> needs_quoting (norm_value ''{a=1}'')" by code_simp
  have h4: "norm_value ''{a=1}'' = ''{a=1}''" by code_simp
  from format_map_literal [OF h1 h2, of id] h3 h4 show ?thesis by simp
qed

text \<open>
  C3, as stated, fails: the map literal \<open>{a = 1}\<close> is written between double quotes, which
  is no serialisation of a map.
\<close>

theorem format_map_literal_counterexample:
  "format_env_value id (parse_value ''{a = 1}'') = [CHR 0x22] @ ''{a = 1}'' @ [CHR 0x22]
   \<and> \<not> startswith (format_env_value id (parse_value ''{a = 1}'')) CHR ''{''"
  by code_simp

text \<open>
  C5, as amended: the parser ends on every input.  It returns the one value its rules give,
  without raising, whenever the nesting of that value fits the stack frames that are free,
  and so whenever the input is shorter than the number of free frames; when the nesting is
  deeper it raises \<open>RecursionError\<close>.  An input that matches none of the earlier rules is
  returned as the string holding its normalised text.
\<close>

theorem parse_value_limited_total:
  "(value_depth (parse_value raw) \<le> frames \<longrightarrow>
      parse_value_limited frames raw = Inr (parse_value raw))
   \<and> (frames < value_depth (parse_value raw) \<longrightarrow>
        parse_value_limited frames raw = Inl RecursionError)
   \<and> (length raw < frames \<longrightarrow> parse_value_limited frames raw = Inr (parse_value raw))
   \<and> (0 < frames
        \<and> lower (norm_value raw) \<noteq> ''true''
        \<and> lower (norm_value raw) \<noteq> ''false''
        \<and> lower (norm_value raw) \<noteq> ''null''
        \<and> \<not> (startswith (norm_value raw) CHR 0x22 \<and> endswith (norm_value raw) CHR 0x22)
        \<and> parse_number (norm_value raw) = None
        \<and> \<not> (startswith (norm_value raw) CHR ''['' \<and> endswith (norm_value raw) CHR '']'')
      \<longrightarrow> parse_value_limited frames raw = Inr (VStr (norm_value raw)))"
proof (intro conjI impI)
  show "parse_value_limited frames raw = Inr (parse_value raw)"
    if "value_depth (parse_value raw) \<le> frames"
    using that by (simp add: parse_value_limited_exact)
  show "parse_value_limited frames raw = Inl RecursionError"
    if "frames < value_depth (parse_value raw)"
    using that by (simp add: parse_value_limited_exact)
  show "parse_value_limited frames raw = Inr (parse_value raw)" if "length raw < frames"
  proof -
    have "value_depth (parse_value raw) \<le> Suc (length raw)"
      using value_depth_le_nodes [of "parse_value raw"] parse_value_nodes [of raw]
      by (rule order_trans)
    with that show ?thesis by (simp add: parse_value_limited_exact)
  qed
  show "parse_value_limited frames raw = Inr (VStr (norm_value raw))"
    if "0 < frames
        \<and> lower (norm_value raw) \<noteq> ''true''
        \<and> lower (norm_value raw) \<noteq> ''false''
        \<and> lower (norm_value raw) \<noteq> ''null''
        \<and> \<not> (startswith (norm_value raw) CHR 0x22 \<and> endswith (norm_value raw) CHR 0x22)
        \<and> parse_number (norm_value raw) = None
        \<and> \<not> (startswith (norm_value raw) CHR ''['' \<and> endswith (norm_value raw) CHR '']'')"
  proof -
    from that obtain k where "frames = Suc k" by (cases frames) auto
    with that show ?thesis by auto
  qed
qed

theorem parse_value_limited_total_witness:
  "parse_value_limited 3 ''[[1], [2]]'' = Inr (VList [VList [VInt 1], VList [VInt 2]])
   \<and> parse_value_limited 2 ''[[1], [2]]'' = Inl RecursionError
   \<and> parse_value_limited 11 ''[[1], [2]]'' = Inr (VList [VList [VInt 1], VList [VInt 2]])
   \<and> parse_value_limited 1 '' us-east-1, '' = Inr (VStr ''us-east-1'')"
proof -
  have p: "parse_value ''[[1], [2]]'' = VList [VList [VInt 1], VList [VInt 2]]" by code_simp
  have d: "value_depth (parse_value ''[[1], [2]]'') = 3" by code_simp
  have l: "length ''[[1], [2]]'' < (11::nat)" by simp
  have h: "0 < (1::nat)
        \<and> lower (norm_value '' us-east-1, '') \<noteq> ''true''
        \<and> lower (norm_value '' us-east-1, '') \<noteq> ''false''
        \<and> lower (norm_value '' us-east-1, '') \<noteq> ''null''
        \<and> \<not> (startswith (norm_value '' us-east-1, '') CHR 0x22
               \<and> endswith (norm_value '' us-east-1, '') CHR 0x22)
        \<and> parse_number (norm_value '' us-east-1, '') = None
        \<and> \<not> (startswith (norm_value '' us-east-1, '') CHR ''[''
               \<and> endswith (norm_value '' us-east-1, '') CHR '']'')"
    by code_simp
  have n: "norm_value '' us-east-1, '' = ''us-east-1''" by code_simp
  from parse_value_limited_total [of "''[[1], [2]]''" 3]
    parse_value_limited_total [of "''[[1], [2]]''" 2]
    parse_value_limited_total [of "''[[1], [2]]''" 11]
    parse_value_limited_total [of "'' us-east-1, ''" 1] p d l h n
  show ?thesis by simp
qed

text \<open>
  C5, as stated, fails: with the whole default stack of 1000 frames free, the literal of
  1001 nested lists raises \<open>RecursionError\<close>.
\<close>

theorem parse_value_limited_counterexample:
  "parse_value_limited 1000 (replicate 1001 CHR ''['' @ replicate 1001 CHR '']'')
     = Inl RecursionError"
  using deep_nesting_raises [of 1000] by (simp add: nested_brackets_replicate)

text \<open>
  C7, as amended: a literal that is no boolean, no null and no quoted string gets exactly
  one numeric conversion, chosen by the presence of a dot: \<open>float\<close> when it holds a dot,
  \<open>int\<close> otherwise.  When that conversion fails the list, map and string rules follow;
  there is no second numeric attempt.
\<close>

theorem parse_value_numeric:
  assumes "lower (norm_value raw) \<noteq> ''true''"
    and "lower (norm_value raw) \<noteq> ''false''"
    and "lower (norm_value raw) \<noteq> ''null''"
    and "\<not> (startswith (norm_value raw) CHR 0x22 \<and> endswith (norm_value raw) CHR 0x22)"
  shows "parse_value raw =
          (if CHR ''.'' \<in> set (norm_value raw)
           then (if py_float_ok (norm_value raw) then VFloat (norm_value raw)
                 else if startswith (norm_value raw) CHR ''['' \<and> endswith (norm_value raw) CHR '']''
                      then VList (map parse_value (list_items (strip (slice_inner (norm_value raw)))))
                      else VStr (norm_value raw))
           else (case py_int (norm_value raw) of
                   Some n \<Rightarrow> VInt n
                 | None \<Rightarrow>
                     if startswith (norm_value raw) CHR ''['' \<and> endswith (norm_value raw) CHR '']''
                     then VList (map parse_value (list_items (strip (slice_inner (norm_value raw)))))
                     else VStr (norm_value raw)))"
  using assms
  by (subst parse_value.simps)
     (auto simp: parse_number_def list_items_Nil split: option.splits)

theorem parse_value_numeric_witness:
  "parse_value ''42'' = VInt 42 \<and> parse_value ''1.5'' = VFloat ''1.5''"
proof -
  have a: "lower (norm_value ''42'') \<noteq> ''true''" "lower (norm_value ''42'') \<noteq> ''false''"
    "lower (norm_value ''42'') \<noteq> ''null''"
    "\<not> (startswith (norm_value ''42'') CHR 0x22 \<and> endswith (norm_value ''42'') CHR 0x22)"
    by code_simp+
  have b: "lower (norm_value ''1.5'') \<noteq> ''true''" "lower (norm_value ''1.5'') \<noteq> ''false''"
    "lower (norm_value ''1.5'') \<noteq> ''null''"
    "\<not> (startswith (norm_value ''1.5'') CHR 0x22 \<and> endswith (norm_value ''1.5'') CHR 0x22)"
    by code_simp+
  have c: "norm_value ''42'' = ''42''" "py_int ''42'' = Some 42"
    "norm_value ''1.5'' = ''1.5''" "py_float_ok ''1.5''"
    by code_simp+
  from parse_value_numeric [OF a] parse_value_numeric [OF b] c show ?thesis by simp
qed

text \<open>
  C7, as stated, fails: \<open>int\<close> rejects \<open>1e5\<close> and \<open>float\<close> would accept it, but no float
  conversion is tried for a literal without a dot, and the literal stays a string.
\<close>

theorem parse_value_numeric_counterexample:
  "py_int ''1e5'' = None \<and> py_float_ok ''1e5'' \<and> parse_value ''1e5'' = VStr ''1e5''"
  by code_simp

text \<open>
  C8: after a multi-line value the scanner should go on with the line behind the closing
  bracket.  Here that line, \<open>region = "us-east-1"\<close>, is skipped: the cursor already stands
  on it when the inner loop ends, and line 72 advances the cursor once more.  With an empty
  line behind the closing bracket it is the empty line that is skipped, and the assignment
  is read.
\<close>

theorem scanner_skips_line_after_block:
  \<open>parse_tfvars
     [''terraform.tfvars'' \<mapsto>
        ''tags = ['' @ [CHR 0x0A] @ ''  "a"'' @ [CHR 0x0A] @ '']'' @ [CHR 0x0A]
        @ ''region = "us-east-1"'' @ [CHR 0x0A]]
     ''terraform.tfvars''
   = Inr [(''tags'', VList [VStr ''a''])]
   \<and> parse_tfvars
       [''terraform.tfvars'' \<mapsto>
          ''tags = ['' @ [CHR 0x0A] @ ''  "a"'' @ [CHR 0x0A] @ '']'' @ [CHR 0x0A] @ [CHR 0x0A]
          @ ''region = "us-east-1"'' @ [CHR 0x0A]]
       ''terraform.tfvars''
     = Inr [(''tags'', VList [VStr ''a'']), (''region'', VStr ''us-east-1'')]\<close>
  by code_simp

text \<open>
  C9: the destination file is the header block (the header and an empty line, when there is
  a non-empty header) followed by one line \<open>key=value\<close> per key, the keys in ascending
  order; two dictionaries with the same entries, in whatever order they were inserted, give
  the same file.
\<close>

theorem write_env_file_sorted:
  assumes "distinct (dict_keys variables)"
  shows "write_env_file fs env_file variables header env_file
           = Some (header_block header
                   @ concat (map (env_line variables) (sort (dict_keys variables))))
         \<and> sorted (sort (dict_keys variables))
         \<and> distinct (sort (dict_keys variables))
         \<and> set (sort (dict_keys variables)) = set (dict_keys variables)
         \<and> (\<forall>(k, v) \<in> set variables. env_line variables k = k @ ''='' @ v @ [CHR 0x0A])
         \<and> (\<forall>h. h \<noteq> [] \<longrightarrow> header_block (Some h) = h @ [CHR 0x0A, CHR 0x0A])
         \<and> header_block None = []
         \<and> (\<forall>variables'. distinct (dict_keys variables') \<and> set variables' = set variables \<longrightarrow>
               write_env_file fs env_file variables' header
                 = write_env_file fs env_file variables header)"
proof (intro conjI allI impI)
  show "write_env_file fs env_file variables header env_file
           = Some (header_block header
                   @ concat (map (env_line variables) (sort (dict_keys variables))))"
    by (simp add: write_env_file_def env_text_def)
  show "sorted (sort (dict_keys variables))" by simp
  show "distinct (sort (dict_keys variables))" using assms by simp
  show "set (sort (dict_keys variables)) = set (dict_keys variables)" by simp
  show "\<forall>(k, v) \<in> set variables. env_line variables k = k @ ''='' @ v @ [CHR 0x0A]"
    using env_line_lookup [OF assms] by blast
  show "header_block (Some h) = h @ [CHR 0x0A, CHR 0x0A]" if "h \<noteq> []" for h
    using that by (simp add: header_block_def)
  show "header_block None = []" by (simp add: header_block_def)
  show "write_env_file fs env_file variables' header
          = write_env_file fs env_file variables header"
    if "distinct (dict_keys variables') \<and> set variables' = set variables" for variables'
    using that env_text_permutation [OF assms, of variables' header]
    by (simp add: write_env_file_def)
qed

theorem write_env_file_sorted_witness:
  "write_env_file Map.empty ''.env'' [(''B'', ''2''), (''A'', ''1'')] (Some ''# h'') ''.env''
     = Some (''# h'' @ [CHR 0x0A, CHR 0x0A] @ ''A=1'' @ [CHR 0x0A] @ ''B=2'' @ [CHR 0x0A])
   \<and> write_env_file Map.empty ''.env'' [(''A'', ''1''), (''B'', ''2'')] (Some ''# h'')
       = write_env_file Map.empty ''.env'' [(''B'', ''2''), (''A'', ''1'')] (Some ''# h'')"
proof -
  have h: "distinct (dict_keys [(''B'', ''2''), (''A'', ''1'')])" by code_simp
  have h': "distinct (dict_keys [(''A'', ''1''), (''B'', ''2'')])
            \<and> set [(''A'', ''1''), (''B'', ''2'')] = set [(''B'', ''2''), (''A'', ''1'')]"
    by (simp add: dict_keys_def insert_commute)
  have e: "header_block (Some ''# h'')
             @ concat (map (env_line [(''B'', ''2''), (''A'', ''1'')])
                         (sort (dict_keys [(''B'', ''2''), (''A'', ''1'')])))
           = ''# h'' @ [CHR 0x0A, CHR 0x0A] @ ''A=1'' @ [CHR 0x0A] @ ''B=2'' @ [CHR 0x0A]"
    by code_simp
  from write_env_file_sorted [OF h, of Map.empty "''.env''" "Some ''# h''"] h' e
  show ?thesis by (simp only:)
qed

end
